theory Spec2Isabelle
  imports Complex_Main "HOL-Library.Word"
begin

section \<open>Rasters\<close>

text \<open>
  A decoded PNG as the helper sees it (\<open>PNG.sync.read\<close>): \<open>width\<close>, \<open>height\<close> and
  \<open>data\<close>, a byte buffer holding four bytes (R, G, B, A) per pixel, row by row.
  The decoder always returns a buffer of \<open>4 * width * height\<close> bytes; \<open>decoded\<close>
  states that.
\<close>

type_synonym byte = "8 word"

record png =
  width :: nat
  height :: nat
  data :: "byte list"

definition decoded :: "png \<Rightarrow> bool" where
  "decoded p \<longleftrightarrow> length (data p) = 4 * width p * height p"

section \<open>The pixel mask engine: \<open>_clearRect\<close>\<close>

text \<open>
  \<open>png.data[k + 3] > 0\<close>: a read beyond the buffer gives \<open>undefined\<close>, and
  \<open>undefined > 0\<close> is false.
\<close>

definition alpha_gt0 :: "byte list \<Rightarrow> nat \<Rightarrow> bool" where
  "alpha_gt0 d k \<longleftrightarrow> k + 3 < length d \<and> 0 < d ! (k + 3)"

text \<open>
  \<open>png.data.fill(0, k, k + 4)\<close>. The four writes are in range whenever the raster is
  decoded and the pixel lies inside it (lemma \<open>clearRect_writes_in_range\<close> below); a
  write outside the buffer changes nothing here.
\<close>

definition fill0 :: "byte list \<Rightarrow> nat \<Rightarrow> byte list" where
  "fill0 d k = d[k := 0, k + 1 := 0, k + 2 := 0, k + 3 := 0]"

text \<open>The body of the inner loop, at column \<open>x\<close> of row \<open>y\<close>.\<close>

definition clear_pixel :: "nat \<Rightarrow> nat \<Rightarrow> nat \<Rightarrow> byte list \<times> nat \<Rightarrow> byte list \<times> nat" where
  "clear_pixel w y x s =
     (let k = 4 * (x + w * y)
      in (fill0 (fst s) k, if alpha_gt0 (fst s) k then snd s + 1 else snd s))"

text \<open>\<open>Math.min(limit, Math.max(0, parseInt(v)))\<close> for an integer \<open>v\<close>.\<close>

definition clamp_coord :: "nat \<Rightarrow> int \<Rightarrow> nat" where
  "clamp_coord limit v = nat (min (int limit) (max 0 v))"

definition clearRect :: "png \<Rightarrow> int \<Rightarrow> int \<Rightarrow> int \<Rightarrow> int \<Rightarrow> png \<times> nat" where
  "clearRect p x0 y0 x1 y1 =
     (let cx0 = clamp_coord (width p) x0;
          cx1 = clamp_coord (width p) x1;
          cy0 = clamp_coord (height p) y0;
          cy1 = clamp_coord (height p) y1
      in if cx0 = cx1 \<or> cy0 = cy1 then (p, 0)
         else
           let xa = (if cx1 < cx0 then cx1 else cx0);
               xb = (if cx1 < cx0 then cx0 else cx1);
               ya = (if cy1 < cy0 then cy1 else cy0);
               yb = (if cy1 < cy0 then cy0 else cy1);
               s = fold (\<lambda>y. fold (clear_pixel (width p) y) [xa..<xb]) [ya..<yb] (data p, 0)
           in (p\<lparr>data := fst s\<rparr>, snd s))"


section \<open>The bounds and ignore applicator: \<open>_applyBounds\<close>\<close>

text \<open>
  A box of the options (\<open>opts.bounds\<close>, an entry of \<open>opts.ignore\<close>). Its fields went
  through \<open>parseInt\<close> in \<open>_setupTest\<close>; the model keeps integer values only (a field
  that fails to parse, \<open>NaN\<close>, is outside the model).
\<close>

record box =
  box_left :: int
  box_top :: int
  box_width :: int
  box_height :: int

text \<open>The arguments \<open>(x0, y0, x1, y1)\<close> of one call of \<open>_clearRect\<close>.\<close>

type_synonym rect = "int \<times> int \<times> int \<times> int"

text \<open>\<open>cleared += this._clearRect(png, ...)\<close>, for a sequence of calls.\<close>

fun clear_all :: "png \<Rightarrow> nat \<Rightarrow> rect list \<Rightarrow> png \<times> nat" where
  "clear_all p cleared [] = (p, cleared)"
| "clear_all p cleared ((x0, y0, x1, y1) # rs) =
     (let r = clearRect p x0 y0 x1 y1 in clear_all (fst r) (cleared + snd r) rs)"

text \<open>\<open>opts.bounds.left || opts.bounds.top || opts.bounds.width || opts.bounds.height\<close>.\<close>

definition useBounds :: "box \<Rightarrow> bool" where
  "useBounds b \<longleftrightarrow> box_left b \<noteq> 0 \<or> box_top b \<noteq> 0 \<or> box_width b \<noteq> 0 \<or> box_height b \<noteq> 0"

text \<open>The four border clears, in the order of the source.\<close>

definition border_rects :: "box \<Rightarrow> png \<Rightarrow> rect list" where
  "border_rects b p =
     (let x0 = 0; x1 = box_left b; x2 = box_left b + box_width b; x3 = int (width p);
          y0 = 0; y1 = box_top b; y2 = box_top b + box_height b; y3 = int (height p)
      in [(x0, y0, x1, y3), (x1, y0, x3, y1), (x1, y2, x3, y3), (x2, y1, x3, y2)])"

definition ignore_rect :: "box \<Rightarrow> rect" where
  "ignore_rect b = (box_left b, box_top b, box_left b + box_width b, box_top b + box_height b)"

definition applyBounds :: "box \<Rightarrow> box list \<Rightarrow> png \<Rightarrow> png \<times> nat" where
  "applyBounds bounds ignore p =
     (let s = (if useBounds bounds then clear_all p 0 (border_rects bounds p) else (p, 0))
      in clear_all (fst s) (snd s) (map ignore_rect ignore))"

section \<open>Regions of the raster\<close>

text \<open>
  Pixel \<open>(x, y)\<close> lies in the clamped, normalised rectangle of a call
  \<open>_clearRect(png, x0, y0, x1, y1)\<close> on a \<open>w x h\<close> raster.
\<close>

definition in_rect :: "nat \<Rightarrow> nat \<Rightarrow> rect \<Rightarrow> nat \<Rightarrow> nat \<Rightarrow> bool" where
  "in_rect w h r x y =
     (case r of (x0, y0, x1, y1) \<Rightarrow>
        min (clamp_coord w x0) (clamp_coord w x1) \<le> x \<and> x < max (clamp_coord w x0) (clamp_coord w x1) \<and>
        min (clamp_coord h y0) (clamp_coord h y1) \<le> y \<and> y < max (clamp_coord h y0) (clamp_coord h y1))"

text \<open>Pixel \<open>(x, y)\<close> lies inside the bounding box.\<close>

definition in_box :: "box \<Rightarrow> nat \<Rightarrow> nat \<Rightarrow> bool" where
  "in_box b x y \<longleftrightarrow>
     box_left b \<le> int x \<and> int x < box_left b + box_width b \<and>
     box_top b \<le> int y \<and> int y < box_top b + box_height b"

text \<open>
  Byte \<open>k\<close> (0 to 3 for R, G, B, A) of pixel \<open>(x, y)\<close>, the alpha byte, and the pixels
  with a positive one.
\<close>

definition channel :: "png \<Rightarrow> nat \<Rightarrow> nat \<Rightarrow> nat \<Rightarrow> byte" where
  "channel p x y k = data p ! (4 * (x + width p * y) + k)"

definition alpha_at :: "png \<Rightarrow> nat \<Rightarrow> nat \<Rightarrow> byte" where
  "alpha_at p x y = channel p x y 3"

definition opaque :: "png \<Rightarrow> (nat \<times> nat) set" where
  "opaque p = {(x, y). x < width p \<and> y < height p \<and> 0 < alpha_at p x y}"

text \<open>Auxiliary: the loop body on a pixel index, and the indices the two loops visit.\<close>

definition clear_idx :: "nat \<Rightarrow> byte list \<times> nat \<Rightarrow> byte list \<times> nat" where
  "clear_idx i s = (fill0 (fst s) (4 * i), if alpha_gt0 (fst s) (4 * i) then snd s + 1 else snd s)"

definition rect_pixels :: "nat \<Rightarrow> nat \<Rightarrow> nat \<Rightarrow> nat \<Rightarrow> nat \<Rightarrow> nat list" where
  "rect_pixels w xa xb ya yb = concat (map (\<lambda>y. map (\<lambda>x. x + w * y) [xa..<xb]) [ya..<yb])"

text \<open>All the rectangles \<open>_applyBounds\<close> clears, in order, and the pixels they cover.\<close>

definition mask_rects :: "box \<Rightarrow> box list \<Rightarrow> png \<Rightarrow> rect list" where
  "mask_rects b ig p = (if useBounds b then border_rects b p else []) @ map ignore_rect ig"

definition masked :: "nat \<Rightarrow> nat \<Rightarrow> rect list \<Rightarrow> nat \<Rightarrow> nat \<Rightarrow> bool" where
  "masked w h rs x y = list_ex (\<lambda>r. in_rect w h r x y) rs"

section \<open>Numbers\<close>

text \<open>
  JavaScript numbers, as far as the comparison needs them: \<open>NaN\<close>, the two infinities
  and the finite values. Finite values are exact rationals here: the rounding of IEEE
  doubles is not modelled.
\<close>

datatype number = NaN | NegInf | Fin rat | PosInf

text \<open>\<open>a <= b\<close>: false as soon as one side is \<open>NaN\<close>.\<close>

fun js_le :: "number \<Rightarrow> number \<Rightarrow> bool" where
  "js_le NaN _ = False"
| "js_le _ NaN = False"
| "js_le NegInf _ = True"
| "js_le _ PosInf = True"
| "js_le (Fin a) (Fin b) = (a \<le> b)"
| "js_le _ _ = False"

text \<open>\<open>Math.max\<close> and \<open>Math.min\<close> of two numbers: \<open>NaN\<close> if one of them is.\<close>

definition math_max :: "number \<Rightarrow> number \<Rightarrow> number" where
  "math_max a b = (if a = NaN \<or> b = NaN then NaN else if js_le a b then b else a)"

definition math_min :: "number \<Rightarrow> number \<Rightarrow> number" where
  "math_min a b = (if a = NaN \<or> b = NaN then NaN else if js_le a b then a else b)"

text \<open>\<open>a / b\<close> for two non-negative integers: \<open>0 / 0\<close> is \<open>NaN\<close>, \<open>a / 0\<close> is \<open>Infinity\<close>.\<close>

definition js_div :: "nat \<Rightarrow> nat \<Rightarrow> number" where
  "js_div a b = (if b = 0 then (if a = 0 then NaN else PosInf) else Fin (of_nat a / of_nat b))"

text \<open>
  \<open>parseFloat(x.toFixed(4))\<close>. \<open>toFixed\<close> prints \<open>NaN\<close> and the infinities by name,
  and \<open>parseFloat\<close> reads them back. For a finite \<open>x\<close> it takes the integer \<open>n\<close> for
  which \<open>n / 10^4 - |x|\<close> is closest to zero, the larger one of two, and keeps the sign.
  (From \<open>10^21\<close> on \<open>toFixed\<close> prints \<open>x\<close> itself; a double of that size is an integer,
  which the rounding leaves as it is.)
\<close>

definition round4 :: "rat \<Rightarrow> rat" where
  "round4 x = sgn x * of_int \<lfloor>\<bar>x\<bar> * 10 ^ 4 + 1 / 2\<rfloor> / 10 ^ 4"

fun toFixed4 :: "number \<Rightarrow> number" where
  "toFixed4 (Fin x) = Fin (round4 x)"
| "toFixed4 n = n"

section \<open>Options: the constructor and \<open>_setupTest\<close>\<close>

text \<open>
  The options of one comparison after \<open>_setupTest\<close>, as far as the comparison reads
  them. The arguments for pixelmatch (\<open>args\<close>) are part of the differ passed to
  \<open>getVisualDifferences\<close> below.
\<close>

record options =
  tolerance :: number
  bounds :: box
  ignore :: "box list"

text \<open>
  What the caller passes. \<open>None\<close> is \<open>undefined\<close>. \<open>opt_tolerance\<close> holds
  \<open>parseFloat(options.tolerance)\<close>; \<open>opt_element\<close> the box that \<open>_getBoundingBox\<close>
  returns for \<open>options.element\<close>; \<open>opt_bounds\<close> the box \<open>options.bounds\<close> with integer
  fields. An entry of \<open>options.ignore\<close> has four fields that may be missing.
\<close>

record ignore_item =
  item_left :: "int option"
  item_top :: "int option"
  item_width :: "int option"
  item_height :: "int option"

record caller_options =
  opt_tolerance :: "number option"
  opt_element :: "box option"
  opt_bounds :: "box option"
  opt_ignore :: "ignore_item list"

text \<open>
  The constructor: \<open>globalTolerance\<close> is 0 unless \<open>config.tolerance\<close> is defined, and then
  \<open>Math.min(100, Math.max(0, parseFloat(config.tolerance)))\<close>.
\<close>

definition constructor_tolerance :: "number option \<Rightarrow> number" where
  "constructor_tolerance config_tolerance =
     (case config_tolerance of
        None \<Rightarrow> Fin 0
      | Some t \<Rightarrow> math_min (Fin 100) (math_max (Fin 0) t))"

definition no_bounds :: box where
  "no_bounds = \<lparr>box_left = 0, box_top = 0, box_width = 0, box_height = 0\<rparr>"

text \<open>The entries of \<open>options.ignore\<close> that have all four fields.\<close>

fun sanitize_ignore :: "ignore_item list \<Rightarrow> box list" where
  "sanitize_ignore [] = []"
| "sanitize_ignore (item # items) =
     (case (item_left item, item_top item, item_width item, item_height item) of
        (Some l, Some t, Some w, Some h) \<Rightarrow>
          \<lparr>box_left = l, box_top = t, box_width = w, box_height = h\<rparr> # sanitize_ignore items
      | _ \<Rightarrow> sanitize_ignore items)"

definition setupTest :: "number \<Rightarrow> caller_options option \<Rightarrow> options" where
  "setupTest globalTolerance opts =
     (case opts of
        None \<Rightarrow> \<lparr>tolerance = globalTolerance, bounds = no_bounds, ignore = []\<rparr>
      | Some co \<Rightarrow>
          \<lparr>tolerance = (case opt_tolerance co of None \<Rightarrow> globalTolerance | Some t \<Rightarrow> math_max (Fin 0) t),
           bounds = (case opt_element co of
                       Some b \<Rightarrow> b
                     | None \<Rightarrow> (case opt_bounds co of Some b \<Rightarrow> b | None \<Rightarrow> no_bounds)),
           ignore = sanitize_ignore (opt_ignore co)\<rparr>)"

section \<open>Candidates and variation labels\<close>

text \<open>
  \<open>_getExpectedImagePaths\<close> keeps the names of the directory listing that match
  \<open>'^' + file.replace('.png', '(:?~.+)?\\.png') + '$'\<close> and prefixes them with the
  directory. The model covers an image name free of regular-expression
  metacharacters: a name matches when it is \<open>name.png\<close>, or \<open>name\<close>, an optional
  colon, \<open>~\<close>, at least one character other than a line terminator, and \<open>.png\<close>.
\<close>

definition line_terminator :: "char \<Rightarrow> bool" where
  "line_terminator c \<longleftrightarrow> c = CHR 0x0A \<or> c = CHR 0x0D"

definition ends_with_png :: "string \<Rightarrow> bool" where
  "ends_with_png s \<longleftrightarrow> 4 \<le> length s \<and> drop (length s - 4) s = ''.png''"

definition matches_expected :: "string \<Rightarrow> string \<Rightarrow> bool" where
  "matches_expected name fn \<longleftrightarrow>
     take (length name) fn = name \<and> ends_with_png (drop (length name) fn) \<and>
     (let mid = take (length fn - length name - 4) (drop (length name) fn);
          suffix = (if take 1 mid = '':'' then drop 1 mid else mid)
      in mid = [] \<or>
         (take 1 suffix = ''~'' \<and> 2 \<le> length suffix \<and> \<not> list_ex line_terminator (drop 1 suffix)))"

definition getExpectedImagePaths :: "string \<Rightarrow> string \<Rightarrow> string list \<Rightarrow> string list" where
  "getExpectedImagePaths dir name listing =
     map (\<lambda>fn. dir @ ''/'' @ fn) (filter (matches_expected name) listing)"

text \<open>
  \<open>imgPath.replace(/\.png$|^.*~/g, '')\<close>: at position 0 the second alternative takes
  the longest prefix of the first line that ends in \<open>~\<close>; after it, the first
  alternative takes a final \<open>.png\<close>.
\<close>

definition strip_variation :: "string \<Rightarrow> string" where
  "strip_variation s =
     (let first_line = takeWhile (\<lambda>c. \<not> line_terminator c) s;
          rest = (if CHR ''~'' \<in> set first_line
                  then drop (length first_line - length (takeWhile (\<lambda>c. c \<noteq> CHR ''~'') (rev first_line))) s
                  else s)
      in if ends_with_png rest then take (length rest - 4) rest else rest)"

text \<open>The label of a candidate: \<open>-1 !== imgPath.indexOf('~')\<close> decides.\<close>

definition variation_of :: "string \<Rightarrow> string" where
  "variation_of imgPath = (if CHR ''~'' \<in> set imgPath then strip_variation imgPath else [])"

section \<open>The comparison: \<open>getVisualDifferences\<close>\<close>

datatype error = NoExpectedBaseImage | EmptyScreenshot | ImageSizesDoNotMatch

text \<open>One entry of \<open>results\<close>, and \<open>this.result\<close> with the list of all entries.\<close>

record comparison =
  match :: bool
  difference :: number
  diffImage :: string
  diffPixels :: nat
  totalPixels :: nat
  relevantPixels :: nat
  variation :: string

record result = comparison +
  variations :: "comparison list"

text \<open>
  The differ: \<open>pixelmatch(imgExpected.data, imgActual.data, imgDiff.data, width, height,
  opts.args)\<close> returns the number of different pixels and writes the diff raster into
  the third buffer. As a function it takes the three buffers and the size, and
  returns the count and the new content of the third buffer.
\<close>

type_synonym differ = "byte list \<Rightarrow> byte list \<Rightarrow> byte list \<Rightarrow> nat \<Rightarrow> nat \<Rightarrow> nat \<times> byte list"

text \<open>
  What the helper holds besides the options: whether a diff folder is configured
  (\<open>this.globalDir.diff\<close>) and the name \<open>this._getFileName('diff', i)\<close> of the diff image
  of candidate \<open>i\<close>.
\<close>

record helper =
  diffEnabled :: bool
  diffFileName :: "nat \<Rightarrow> string"

text \<open>
  The variables of the loop over the candidates. \<open>bestImgDiff\<close> is \<open>None\<close> while the
  variable is \<open>undefined\<close>; \<open>PNG.sync.write(imgDiff)\<close> is modelled by the content of the
  buffer it serialises.
\<close>

record loop_state =
  results :: "comparison list"
  bestIndex :: nat
  bestDifference :: nat
  bestImgDiff :: "byte list option"
  imgDiff :: "byte list"

text \<open>
  One round of the loop, for a candidate of the right size: the candidate is the
  path \<open>imgPath\<close> with the raster \<open>_loadPngImage(imgPath)\<close>. The difference
  \<open>totalPixels - ignoredPixels\<close> is never negative for a decoded raster (lemma
  \<open>applyBounds_le_total\<close> below), so the subtraction of natural numbers is the one of
  the source.
\<close>

definition compare_candidate ::
  "helper \<Rightarrow> options \<Rightarrow> differ \<Rightarrow> png \<Rightarrow> nat \<Rightarrow> nat \<Rightarrow> nat \<Rightarrow> string \<times> png \<Rightarrow> loop_state \<Rightarrow> loop_state"
where
  "compare_candidate hp opts pixelmatch imgActual totalPixels' ignoredPixels i cand st =
     (let imgExpected = fst (applyBounds (bounds opts) (ignore opts) (snd cand));
          pm = pixelmatch (data imgExpected) (data imgActual) (imgDiff st)
                 (width imgActual) (height imgActual);
          relevant = totalPixels' - ignoredPixels;
          diff = toFixed4 (js_div (100 * fst pm) relevant);
          m = js_le diff (tolerance opts);
          entry = \<lparr>match = m, difference = diff,
                   diffImage = (if \<not> m \<and> diffEnabled hp then diffFileName hp i else []),
                   diffPixels = fst pm, totalPixels = totalPixels', relevantPixels = relevant,
                   variation = variation_of (fst cand)\<rparr>;
          st1 = st\<lparr>results := results st @ [entry], imgDiff := snd pm\<rparr>
      in if fst pm < bestDifference st
         then st1\<lparr>bestImgDiff := Some (snd pm), bestDifference := fst pm, bestIndex := i\<rparr>
         else st1)"

fun compare_loop ::
  "helper \<Rightarrow> options \<Rightarrow> differ \<Rightarrow> png \<Rightarrow> nat \<Rightarrow> nat \<Rightarrow> nat \<Rightarrow> (string \<times> png) list \<Rightarrow> loop_state
     \<Rightarrow> error + loop_state"
where
  "compare_loop hp opts pixelmatch imgActual totalPixels' ignoredPixels i [] st = Inr st"
| "compare_loop hp opts pixelmatch imgActual totalPixels' ignoredPixels i (cand # rest) st =
     (if width (snd cand) \<noteq> width imgActual \<or> height (snd cand) \<noteq> height imgActual
      then Inl ImageSizesDoNotMatch
      else compare_loop hp opts pixelmatch imgActual totalPixels' ignoredPixels (i + 1) rest
             (compare_candidate hp opts pixelmatch imgActual totalPixels' ignoredPixels i cand st))"

text \<open>
  What a comparison leaves behind: the result, and the diff image written by
  \<open>_savePngImage('diff', bestImgDiff, res.variation)\<close>, if one is written. Nothing is
  written when the diff folder is disabled or when \<open>bestImgDiff\<close> is \<open>undefined\<close>.
\<close>

record outcome =
  res :: result
  diffWritten :: "byte list option"

text \<open>
  The comparison after \<open>_setupTest\<close> and the capture of screenshots. \<open>expectedImages\<close>
  pairs each path of \<open>_getExpectedImagePaths()\<close> with the raster loaded from it;
  \<open>imgActual\<close> is \<open>_loadPngImage('actual')\<close>. Reading and writing files cannot fail
  here, and the dump of intermediate images is left out.
\<close>

definition getVisualDifferences ::
  "helper \<Rightarrow> options \<Rightarrow> differ \<Rightarrow> png \<Rightarrow> (string \<times> png) list \<Rightarrow> error + outcome"
where
  "getVisualDifferences hp opts pixelmatch imgActual0 expectedImages =
     (if expectedImages = [] then Inl NoExpectedBaseImage
      else if height imgActual0 = 0 then Inl EmptyScreenshot
      else
        let w = width imgActual0;
            h = height imgActual0;
            tot = w * h;
            cleared = applyBounds (bounds opts) (ignore opts) imgActual0;
            imgActual = fst cleared;
            ignoredPixels = snd cleared;
            st0 = \<lparr>results = [], bestIndex = 0, bestDifference = tot,
                   bestImgDiff = None, imgDiff = replicate (4 * w * h) 0\<rparr>
        in case compare_loop hp opts pixelmatch imgActual tot ignoredPixels 0 expectedImages st0 of
             Inl e \<Rightarrow> Inl e
           | Inr st \<Rightarrow>
               let best = results st ! bestIndex st;
                   r = \<lparr>match = match best, difference = difference best,
                        diffImage = diffImage best, diffPixels = diffPixels best,
                        totalPixels = totalPixels best, relevantPixels = relevantPixels best,
                        variation = variation best, variations = results st\<rparr>
               in Inr \<lparr>res = r,
                       diffWritten = (if \<not> match r \<and> diffEnabled hp then bestImgDiff st else None)\<rparr>)"

text \<open>
  A plain differ for running the comparison on concrete rasters: it counts the pixels
  whose four bytes differ and leaves the diff buffer as it is.
\<close>

fun count_diff :: "byte list \<Rightarrow> byte list \<Rightarrow> nat" where
  "count_diff (r1 # g1 # b1 # a1 # e) (r2 # g2 # b2 # a2 # a) =
     (if r1 = r2 \<and> g1 = g2 \<and> b1 = b2 \<and> a1 = a2 then 0 else 1) + count_diff e a"
| "count_diff _ _ = 0"

definition plain_differ :: differ where
  "plain_differ e a d w h = (count_diff e a, d)"

section \<open>Notions used in the statements\<close>

text \<open>
  Index \<open>b\<close> is the first position of the least element of \<open>ds\<close>: no element is
  smaller, and every earlier one is strictly greater.
\<close>

definition first_min :: "nat list \<Rightarrow> nat \<Rightarrow> bool" where
  "first_min ds b \<longleftrightarrow>
     b < length ds \<and> list_all (\<lambda>d. ds ! b \<le> d) ds \<and> list_all (\<lambda>d. ds ! b < d) (take b ds)"

text \<open>
  An entry of \<open>results\<close> as one round of the loop fills it in, for the totals of the
  actual image.
\<close>

definition entry_ok :: "helper \<Rightarrow> options \<Rightarrow> nat \<Rightarrow> nat \<Rightarrow> comparison \<Rightarrow> bool" where
  "entry_ok hp opts tot ignoredPixels e \<longleftrightarrow>
     totalPixels e = tot \<and> relevantPixels e = tot - ignoredPixels \<and>
     difference e = toFixed4 (js_div (100 * diffPixels e) (relevantPixels e)) \<and>
     match e = js_le (difference e) (tolerance opts) \<and>
     (diffImage e = [] \<or> \<not> match e \<and> diffEnabled hp)"

text \<open>The invariant of the loop for the best match so far.\<close>

definition best_inv :: "nat \<Rightarrow> loop_state \<Rightarrow> bool" where
  "best_inv tot st \<longleftrightarrow>
     bestDifference st \<le> tot \<and>
     list_all (\<lambda>e. bestDifference st \<le> diffPixels e) (results st) \<and>
     (if bestDifference st < tot
      then bestIndex st < length (results st) \<and>
           diffPixels (results st ! bestIndex st) = bestDifference st \<and>
           list_all (\<lambda>e. bestDifference st < diffPixels e) (take (bestIndex st) (results st)) \<and>
           bestImgDiff st \<noteq> None
      else bestIndex st = 0 \<and> bestImgDiff st = None)"

text \<open>Auxiliary: the state in which the loop of a comparison ends.\<close>

definition final_state :: "helper \<Rightarrow> options \<Rightarrow> differ \<Rightarrow> png \<Rightarrow> (string \<times> png) list \<Rightarrow> loop_state" where
  "final_state hp opts pixelmatch imgActual0 expectedImages =
     (let cleared = applyBounds (bounds opts) (ignore opts) imgActual0;
          st0 = \<lparr>results = [], bestIndex = 0, bestDifference = width imgActual0 * height imgActual0,
                 bestImgDiff = None,
                 imgDiff = replicate (4 * width imgActual0 * height imgActual0) 0\<rparr>
      in case compare_loop hp opts pixelmatch (fst cleared) (width imgActual0 * height imgActual0)
                (snd cleared) 0 expectedImages st0 of
           Inl e \<Rightarrow> st0
         | Inr st \<Rightarrow> st)"

section \<open>Rasters and a helper for running the comparison\<close>

text \<open>
  An opaque grey pixel, a raster of one row of such pixels, and a helper with a diff
  folder whose diff images are called \<open>Diff_shot.png\<close>, \<open>Diff_shot.1.png\<close> and so on.
\<close>

definition grey :: "byte \<Rightarrow> byte list" where
  "grey v = [v, v, v, 255]"

definition row :: "byte list \<Rightarrow> png" where
  "row vs = \<lparr>width = length vs, height = 1, data = concat (map grey vs)\<rparr>"

definition shot_helper :: helper where
  "shot_helper =
     \<lparr>diffEnabled = True,
      diffFileName = (\<lambda>i. if i = 0 then ''Diff_shot.png''
                         else ''Diff_shot.'' @ [char_of (48 + i)] @ ''.png'')\<rparr>"

definition plain_options :: "number \<Rightarrow> options" where
  "plain_options t = \<lparr>tolerance = t, bounds = no_bounds, ignore = []\<rparr>"

section \<open>Properties of the mask engine\<close>


lemma clear_pixel_idx: "clear_pixel w y = (\<lambda>x. clear_idx (x + w * y))"
  by (rule ext)+ (simp add: clear_pixel_def clear_idx_def Let_def)

lemma fold_concat_rows: "fold f (concat xss) t = fold (fold f) xss t"
  by (induction xss arbitrary: t) simp_all

lemma nested_fold:
  "fold (\<lambda>y. fold (clear_pixel w y) [xa..<xb]) [ya..<yb] s = fold clear_idx (rect_pixels w xa xb ya yb) s"
  unfolding rect_pixels_def by (simp add: fold_concat_rows fold_map comp_def clear_pixel_idx)

lemma length_fill0 [simp]: "length (fill0 d k) = length d"
  by (simp add: fill0_def)

lemma fill0_nth:
  assumes "j < length d"
  shows "fill0 d (4 * i) ! j = (if j div 4 = i then 0 else d ! j)"
proof (cases "j div 4 = i")
  case True
  then have "j = 4 * i \<or> j = 4 * i + 1 \<or> j = 4 * i + 2 \<or> j = 4 * i + 3" by arith
  with True assms show ?thesis unfolding fill0_def by (auto simp: nth_list_update)
next
  case False
  then have "j \<noteq> 4 * i \<and> j \<noteq> 4 * i + 1 \<and> j \<noteq> 4 * i + 2 \<and> j \<noteq> 4 * i + 3" by arith
  with False assms show ?thesis unfolding fill0_def by (simp add: nth_list_update)
qed

lemma alpha_fill0: "alpha_gt0 (fill0 d (4 * i)) (4 * i') \<longleftrightarrow> i' \<noteq> i \<and> alpha_gt0 d (4 * i')"
proof -
  have "(4 * i' + 3) div 4 = i'" by simp
  then show ?thesis unfolding alpha_gt0_def by (auto simp: fill0_nth split: if_splits)
qed

lemma fold_clear_len: "length (fst (fold clear_idx ps s)) = length (fst s)"
  by (induction ps arbitrary: s) (simp_all add: clear_idx_def)

lemma fold_clear_nth:
  "j < length (fst s) \<Longrightarrow> fst (fold clear_idx ps s) ! j = (if j div 4 \<in> set ps then 0 else fst s ! j)"
  by (induction ps arbitrary: s) (auto simp: clear_idx_def fill0_nth)

lemma fold_clear_count:
  "distinct ps \<Longrightarrow> snd (fold clear_idx ps s) = snd s + card {i \<in> set ps. alpha_gt0 (fst s) (4 * i)}"
proof (induction ps arbitrary: s)
  case Nil
  then show ?case by simp
next
  case (Cons p ps)
  let ?A = "{i \<in> set ps. alpha_gt0 (fst s) (4 * i)}"
  have notin: "p \<notin> set ps" and dist: "distinct ps" using Cons.prems by auto
  have same: "{i \<in> set ps. alpha_gt0 (fst (clear_idx p s)) (4 * i)} = ?A"
    using notin by (auto simp: clear_idx_def alpha_fill0)
  have split: "{i \<in> set (p # ps). alpha_gt0 (fst s) (4 * i)} =
      (if alpha_gt0 (fst s) (4 * p) then insert p ?A else ?A)"
    by auto
  have fin: "finite ?A" by simp
  have "p \<notin> ?A" using notin by simp
  with fin have "card (insert p ?A) = Suc (card ?A)" by (rule card_insert_disjoint)
  then have "card {i \<in> set (p # ps). alpha_gt0 (fst s) (4 * i)} =
      (if alpha_gt0 (fst s) (4 * p) then 1 else 0) + card ?A"
    unfolding split by simp
  moreover have "snd (fold clear_idx (p # ps) s) = snd (clear_idx p s) + card ?A"
    using Cons.IH [OF dist, of "clear_idx p s"] same by simp
  moreover have "snd (clear_idx p s) = snd s + (if alpha_gt0 (fst s) (4 * p) then 1 else 0)"
    by (simp add: clear_idx_def)
  ultimately show ?case by (simp only: add.assoc)
qed

subsection \<open>The pixels of a rectangle\<close>

lemma pixel_index_div_mod:
  "x < w \<Longrightarrow> (x + w * y) div w = y \<and> (x + w * y) mod w = (x::nat)"
  by simp

lemma pixel_index_inj:
  "x < w \<Longrightarrow> x' < w \<Longrightarrow> x + w * y = x' + w * y' \<Longrightarrow> x = x' \<and> y = (y'::nat)"
  by (metis pixel_index_div_mod)

lemma pixel_index_bound:
  assumes "x < w" "y < h"
  shows "x + w * y < w * (h::nat)"
proof -
  have "x + w * y < w * Suc y" using assms by simp
  also have "\<dots> \<le> w * h" using assms by (intro mult_le_mono2) simp
  finally show ?thesis .
qed

lemma rect_pixels_product:
  "rect_pixels w xa xb ya yb = map (\<lambda>(y, x). x + w * y) (List.product [ya..<yb] [xa..<xb])"
  by (simp add: rect_pixels_def List.product_concat_map map_concat comp_def)

lemma set_rect_pixels:
  "set (rect_pixels w xa xb ya yb) = {x + w * y | x y. xa \<le> x \<and> x < xb \<and> ya \<le> y \<and> y < yb}"
proof -
  have "set (rect_pixels w xa xb ya yb) = (\<lambda>(y, x). x + w * y) ` ({ya..<yb} \<times> {xa..<xb})"
    unfolding rect_pixels_product by simp
  also have "\<dots> = {x + w * y | x y. xa \<le> x \<and> x < xb \<and> ya \<le> y \<and> y < yb}"
    by (auto simp: image_iff) force
  finally show ?thesis .
qed

lemma distinct_rect_pixels:
  assumes "xb \<le> w"
  shows "distinct (rect_pixels w xa xb ya yb)"
proof -
  have "inj_on (\<lambda>(y, x). x + w * y) (set (List.product [ya..<yb] [xa..<xb]))"
    using assms by (auto simp: inj_on_def dest: pixel_index_inj [rotated 2])
  then show ?thesis
    by (simp add: rect_pixels_product distinct_map distinct_product)
qed

lemma mem_rect_pixels:
  assumes "x < w" "xb \<le> w"
  shows "x + w * y \<in> set (rect_pixels w xa xb ya yb) \<longleftrightarrow> xa \<le> x \<and> x < xb \<and> ya \<le> y \<and> y < yb"
proof
  assume "x + w * y \<in> set (rect_pixels w xa xb ya yb)"
  then obtain x' y' where e: "x + w * y = x' + w * y'" and r: "xa \<le> x'" "x' < xb" "ya \<le> y'" "y' < yb"
    by (auto simp: set_rect_pixels)
  from r assms have "x' < w" by simp
  with e assms have "x = x' \<and> y = y'" by (intro pixel_index_inj)
  with r show "xa \<le> x \<and> x < xb \<and> ya \<le> y \<and> y < yb" by simp
next
  assume "xa \<le> x \<and> x < xb \<and> ya \<le> y \<and> y < yb"
  then show "x + w * y \<in> set (rect_pixels w xa xb ya yb)" by (auto simp: set_rect_pixels)
qed

subsection \<open>clearRect\<close>

lemma clamp_coord_le [simp]: "clamp_coord n v \<le> n"
  by (simp add: clamp_coord_def)

lemma clearRect_fold:
  "clearRect p x0 y0 x1 y1 =
     (let s = fold clear_idx
                (rect_pixels (width p)
                   (min (clamp_coord (width p) x0) (clamp_coord (width p) x1))
                   (max (clamp_coord (width p) x0) (clamp_coord (width p) x1))
                   (min (clamp_coord (height p) y0) (clamp_coord (height p) y1))
                   (max (clamp_coord (height p) y0) (clamp_coord (height p) y1)))
                (data p, 0)
      in (p\<lparr>data := fst s\<rparr>, snd s))"
proof -
  have e: "rect_pixels w a a c d = []" "rect_pixels w a b c c = []" for w a b c d
    by (simp_all add: rect_pixels_def)
  show ?thesis
    unfolding clearRect_def Let_def nested_fold
    by (auto simp: e min_def max_def)
qed



lemma in_rect_inside:
  assumes "in_rect w h r x y"
  shows "x < w \<and> y < h"
proof -
  obtain x0 y0 x1 y1 where r: "r = (x0, y0, x1, y1)" by (cases r) auto
  have "max (clamp_coord w x0) (clamp_coord w x1) \<le> w"
    and "max (clamp_coord h y0) (clamp_coord h y1) \<le> h"
    by simp_all
  moreover have "x < max (clamp_coord w x0) (clamp_coord w x1)"
    and "y < max (clamp_coord h y0) (clamp_coord h y1)"
    using assms unfolding r in_rect_def by simp_all
  ultimately show ?thesis by linarith
qed

lemma clearRect_width [simp]: "width (fst (clearRect p x0 y0 x1 y1)) = width p"
  and clearRect_height [simp]: "height (fst (clearRect p x0 y0 x1 y1)) = height p"
  and clearRect_length [simp]: "length (data (fst (clearRect p x0 y0 x1 y1))) = length (data p)"
  by (simp_all add: clearRect_fold Let_def fold_clear_len)

lemma clearRect_decoded: "decoded p \<Longrightarrow> decoded (fst (clearRect p x0 y0 x1 y1))"
  by (simp add: decoded_def)

lemma byte_index:
  assumes "decoded p" "x < width p" "y < height p" "c < 4"
  shows "4 * (x + width p * y) + c < length (data p)"
    and "(4 * (x + width p * y) + c) div 4 = x + width p * y"
proof -
  have "x + width p * y < width p * height p"
    using assms by (intro pixel_index_bound)
  with assms show "4 * (x + width p * y) + c < length (data p)"
    by (simp add: decoded_def)
  show "(4 * (x + width p * y) + c) div 4 = x + width p * y"
    using assms by simp
qed

lemma clearRect_channel:
  assumes "decoded p" "x < width p" "y < height p" "c < 4"
  shows "channel (fst (clearRect p x0 y0 x1 y1)) x y c =
         (if in_rect (width p) (height p) (x0, y0, x1, y1) x y then 0 else channel p x y c)"
  using assms byte_index [OF assms]
  by (simp add: channel_def clearRect_fold Let_def fold_clear_nth mem_rect_pixels in_rect_def)

lemma alpha_gt0_alpha_at:
  assumes "decoded p" "x < width p" "y < height p"
  shows "alpha_gt0 (data p) (4 * (x + width p * y)) \<longleftrightarrow> 0 < alpha_at p x y"
  using byte_index(1) [OF assms, of 3] by (simp add: alpha_gt0_def alpha_at_def channel_def)

lemma clearRect_count:
  assumes "decoded p"
  shows "snd (clearRect p x0 y0 x1 y1) =
         card {(x, y). in_rect (width p) (height p) (x0, y0, x1, y1) x y \<and> 0 < alpha_at p x y}"
proof -
  let ?w = "width p" and ?h = "height p"
  let ?xa = "min (clamp_coord ?w x0) (clamp_coord ?w x1)"
  let ?xb = "max (clamp_coord ?w x0) (clamp_coord ?w x1)"
  let ?ya = "min (clamp_coord ?h y0) (clamp_coord ?h y1)"
  let ?yb = "max (clamp_coord ?h y0) (clamp_coord ?h y1)"
  let ?ps = "rect_pixels ?w ?xa ?xb ?ya ?yb"
  let ?S = "{(x, y). in_rect ?w ?h (x0, y0, x1, y1) x y \<and> 0 < alpha_at p x y}"
  let ?f = "\<lambda>(x, y). x + ?w * y"
  have xb: "?xb \<le> ?w" by simp
  have inj: "inj_on ?f ?S"
    by (auto simp: inj_on_def dest!: in_rect_inside dest: pixel_index_inj)
  have "{i \<in> set ?ps. alpha_gt0 (data p) (4 * i)} = ?f ` ?S"
  proof (intro set_eqI iffI)
    fix i assume "i \<in> {i \<in> set ?ps. alpha_gt0 (data p) (4 * i)}"
    then obtain x y where i: "i = x + ?w * y" and r: "?xa \<le> x" "x < ?xb" "?ya \<le> y" "y < ?yb"
      and a: "alpha_gt0 (data p) (4 * i)"
      by (auto simp: set_rect_pixels)
    have ir: "in_rect ?w ?h (x0, y0, x1, y1) x y" using r by (simp add: in_rect_def)
    then have "x < ?w" "y < ?h" using in_rect_inside by blast+
    then have "alpha_gt0 (data p) (4 * (x + ?w * y)) \<longleftrightarrow> 0 < alpha_at p x y"
      by (intro alpha_gt0_alpha_at assms)
    with a have "0 < alpha_at p x y" unfolding i by (simp only:)
    with ir i show "i \<in> ?f ` ?S" by force
  next
    fix i assume "i \<in> ?f ` ?S"
    then obtain x y where i: "i = x + ?w * y" and ir: "in_rect ?w ?h (x0, y0, x1, y1) x y"
      and a: "0 < alpha_at p x y" by auto
    from ir have in': "x < ?w" "y < ?h" using in_rect_inside by blast+
    from ir have "i \<in> set ?ps" unfolding i by (auto simp: set_rect_pixels in_rect_def)
    moreover have "alpha_gt0 (data p) (4 * (x + ?w * y)) \<longleftrightarrow> 0 < alpha_at p x y"
      using in' by (intro alpha_gt0_alpha_at assms)
    with a have "alpha_gt0 (data p) (4 * i)" unfolding i by (simp only:)
    moreover note this
    ultimately show "i \<in> {i \<in> set ?ps. alpha_gt0 (data p) (4 * i)}" by simp
  qed
  then have "card {i \<in> set ?ps. alpha_gt0 (data p) (4 * i)} = card ?S"
    using inj by (simp add: card_image)
  then show ?thesis
    by (simp add: clearRect_fold Let_def fold_clear_count distinct_rect_pixels [OF xb])
qed



lemma clearRect_writes_in_range:
  assumes "decoded p"
    and "i \<in> set (rect_pixels (width p)
                 (min (clamp_coord (width p) x0) (clamp_coord (width p) x1))
                 (max (clamp_coord (width p) x0) (clamp_coord (width p) x1))
                 (min (clamp_coord (height p) y0) (clamp_coord (height p) y1))
                 (max (clamp_coord (height p) y0) (clamp_coord (height p) y1)))"
  shows "4 * i + 4 \<le> length (data p)"
proof -
  from assms(2) obtain x y where i: "i = x + width p * y"
    and x: "x < max (clamp_coord (width p) x0) (clamp_coord (width p) x1)"
    and y: "y < max (clamp_coord (height p) y0) (clamp_coord (height p) y1)"
    by (auto simp: set_rect_pixels)
  have "max (clamp_coord (width p) x0) (clamp_coord (width p) x1) \<le> width p"
    and "max (clamp_coord (height p) y0) (clamp_coord (height p) y1) \<le> height p"
    by simp_all
  with x y have "x < width p" "y < height p" by linarith+
  then have "i < width p * height p" unfolding i by (rule pixel_index_bound)
  with assms(1) show ?thesis by (simp add: decoded_def)
qed

subsection \<open>Sequences of clears\<close>


lemma alpha_at_clearRect:
  assumes "decoded p" "x < width p" "y < height p"
  shows "alpha_at (fst (clearRect p x0 y0 x1 y1)) x y =
         (if in_rect (width p) (height p) (x0, y0, x1, y1) x y then 0 else alpha_at p x y)"
  using clearRect_channel [OF assms, of 3] by (simp add: alpha_at_def)

lemma opaque_clearRect:
  assumes "decoded p"
  shows "opaque (fst (clearRect p x0 y0 x1 y1)) =
         opaque p - {(x, y). in_rect (width p) (height p) (x0, y0, x1, y1) x y}"
  using assms by (auto simp: opaque_def alpha_at_clearRect split: if_splits)

lemma finite_opaque [simp]: "finite (opaque p)"
proof -
  have "opaque p \<subseteq> {..<width p} \<times> {..<height p}" by (auto simp: opaque_def)
  then show ?thesis by (rule finite_subset) simp
qed

lemma finite_in_rect [simp]: "finite {(x, y). in_rect w h r x y \<and> P x y}"
proof -
  have "{(x, y). in_rect w h r x y \<and> P x y} \<subseteq> {..<w} \<times> {..<h}"
    by (auto dest: in_rect_inside)
  then show ?thesis by (rule finite_subset) simp
qed

lemma masked_inside: "masked w h rs x y \<Longrightarrow> x < w \<and> y < h"
  by (auto simp: masked_def list_ex_iff dest: in_rect_inside)

lemma finite_masked [simp]: "finite {(x, y). masked w h rs x y \<and> P x y}"
proof -
  have "{(x, y). masked w h rs x y \<and> P x y} \<subseteq> {..<w} \<times> {..<h}"
    by (auto dest: masked_inside)
  then show ?thesis by (rule finite_subset) simp
qed

lemma masked_Cons: "masked w h (r # rs) x y \<longleftrightarrow> in_rect w h r x y \<or> masked w h rs x y"
  by (simp add: masked_def)

lemma clear_all_dims [simp]:
  "width (fst (clear_all p c rs)) = width p"
  "height (fst (clear_all p c rs)) = height p"
  "length (data (fst (clear_all p c rs))) = length (data p)"
  by (induction p c rs rule: clear_all.induct) (simp_all add: Let_def)

lemma clear_all_decoded: "decoded p \<Longrightarrow> decoded (fst (clear_all p c rs))"
  by (simp add: decoded_def)

lemma clear_all_channel:
  assumes "decoded p" "x < width p" "y < height p" "k < 4"
  shows "channel (fst (clear_all p c rs)) x y k =
         (if masked (width p) (height p) rs x y then 0 else channel p x y k)"
  using assms
proof (induction p c rs rule: clear_all.induct)
  case (1 p cleared)
  then show ?case by (simp add: masked_def)
next
  case (2 p cleared x0 y0 x1 y1 rs)
  let ?p1 = "fst (clearRect p x0 y0 x1 y1)"
  have d1: "decoded ?p1" using "2.prems" by (simp add: clearRect_decoded)
  have "channel (fst (clear_all ?p1 (cleared + snd (clearRect p x0 y0 x1 y1)) rs)) x y k =
        (if masked (width ?p1) (height ?p1) rs x y then 0 else channel ?p1 x y k)"
    using "2.prems" d1 by (intro "2.IH") simp_all
  then show ?case
    using "2.prems" by (simp add: Let_def masked_Cons clearRect_channel)
qed

lemma clear_all_count:
  assumes "decoded p"
  shows "snd (clear_all p c rs) =
         c + card {(x, y). masked (width p) (height p) rs x y \<and> 0 < alpha_at p x y}"
  using assms
proof (induction p c rs rule: clear_all.induct)
  case (1 p cleared)
  then show ?case by (simp add: masked_def)
next
  case (2 p cleared x0 y0 x1 y1 rs)
  let ?w = "width p" and ?h = "height p"
  let ?r = "(x0, y0, x1, y1)"
  let ?p1 = "fst (clearRect p x0 y0 x1 y1)"
  let ?A = "{(x, y). in_rect ?w ?h ?r x y \<and> 0 < alpha_at p x y}"
  let ?B = "{(x, y). masked ?w ?h rs x y \<and> 0 < alpha_at ?p1 x y}"
  have d1: "decoded ?p1" using "2.prems" by (simp add: clearRect_decoded)
  have B: "?B = {(x, y). masked ?w ?h rs x y \<and> \<not> in_rect ?w ?h ?r x y \<and> 0 < alpha_at p x y}"
    using "2.prems" by (auto simp: alpha_at_clearRect dest: masked_inside split: if_splits)
  have "{(x, y). masked ?w ?h (?r # rs) x y \<and> 0 < alpha_at p x y} = ?A \<union> ?B"
    unfolding B by (auto simp: masked_Cons)
  moreover have "?A \<inter> ?B = {}" unfolding B by auto
  ultimately have card: "card {(x, y). masked ?w ?h (?r # rs) x y \<and> 0 < alpha_at p x y} = card ?A + card ?B"
    by (simp add: card_Un_disjoint)
  have "snd (clear_all ?p1 (cleared + snd (clearRect p x0 y0 x1 y1)) rs) =
        cleared + snd (clearRect p x0 y0 x1 y1) + card ?B"
    using "2.IH" [OF refl d1] by simp
  then show ?case
    using "2.prems" card by (simp add: Let_def clearRect_count)
qed

lemma clear_all_append:
  "clear_all p c (rs @ rs') = clear_all (fst (clear_all p c rs)) (snd (clear_all p c rs)) rs'"
  by (induction p c rs rule: clear_all.induct) (simp_all add: Let_def)

lemma border_rects_dims:
  "width p' = width p \<Longrightarrow> height p' = height p \<Longrightarrow> border_rects b p' = border_rects b p"
  by (simp add: border_rects_def)

lemma applyBounds_clear_all: "applyBounds b ig p = clear_all p 0 (mask_rects b ig p)"
  by (simp add: applyBounds_def mask_rects_def clear_all_append Let_def)

lemma opaque_clear_all:
  assumes "decoded p"
  shows "opaque (fst (clear_all p c rs)) =
         opaque p - {(x, y). masked (width p) (height p) rs x y}"
  using clear_all_channel [OF assms, of _ _ 3]
  by (auto simp: opaque_def alpha_at_def dest: masked_inside split: if_splits)

lemma applyBounds_le_total:
  assumes "decoded p"
  shows "snd (applyBounds b ig p) \<le> width p * height p"
proof -
  let ?S = "{(x, y). masked (width p) (height p) (mask_rects b ig p) x y \<and> 0 < alpha_at p x y}"
  have "?S \<subseteq> {..<width p} \<times> {..<height p}" by (auto dest: masked_inside)
  then have "card ?S \<le> card ({..<width p} \<times> {..<height p})" by (intro card_mono) simp_all
  then show ?thesis
    using assms by (simp add: applyBounds_clear_all clear_all_count)
qed

subsection \<open>The border of the bounding box\<close>


lemma clamp_coord_nat: "clamp_coord n (int k) = min n k"
  by (simp add: clamp_coord_def min_def)

lemma border_in_rect:
  assumes "x < W" "y < H" "l + w \<le> W" "t + h \<le> H"
  shows "in_rect W H (0, 0, int l, int H) x y \<longleftrightarrow> x < l"
    and "in_rect W H (int l, 0, int W, int t) x y \<longleftrightarrow> l \<le> x \<and> y < t"
    and "in_rect W H (int l, int t + int h, int W, int H) x y \<longleftrightarrow> l \<le> x \<and> t + h \<le> y"
    and "in_rect W H (int l + int w, int t, int W, int t + int h) x y \<longleftrightarrow> l + w \<le> x \<and> t \<le> y \<and> y < t + h"
  unfolding of_nat_add [symmetric]
proof -
  have z: "clamp_coord n 0 = 0" for n
    by (simp add: clamp_coord_def)
  have m: "min W l = l" "min W (l + w) = l + w" "min H t = t" "min H (t + h) = t + h"
    using assms by simp_all
  show "in_rect W H (0, 0, int l, int H) x y \<longleftrightarrow> x < l"
    using assms unfolding in_rect_def prod.case z clamp_coord_nat m by simp
  show "in_rect W H (int l, 0, int W, int t) x y \<longleftrightarrow> l \<le> x \<and> y < t"
    using assms unfolding in_rect_def prod.case z clamp_coord_nat m by auto
  show "in_rect W H (int l, int (t + h), int W, int H) x y \<longleftrightarrow> l \<le> x \<and> t + h \<le> y"
    using assms unfolding in_rect_def prod.case z clamp_coord_nat m by auto
  show "in_rect W H (int (l + w), int t, int W, int (t + h)) x y \<longleftrightarrow> l + w \<le> x \<and> t \<le> y \<and> y < t + h"
    using assms unfolding in_rect_def prod.case z clamp_coord_nat m by auto
qed


lemma border_rects_nat:
  assumes "box_left b = int l" "box_top b = int t" "box_width b = int w" "box_height b = int h"
  shows "border_rects b p =
    [(0, 0, int l, int (height p)), (int l, 0, int (width p), int t),
     (int l, int t + int h, int (width p), int (height p)),
     (int l + int w, int t, int (width p), int t + int h)]"
    and "in_box b x y \<longleftrightarrow> l \<le> x \<and> x < l + w \<and> t \<le> y \<and> y < t + h"
proof -
  show "border_rects b p =
    [(0, 0, int l, int (height p)), (int l, 0, int (width p), int t),
     (int l, int t + int h, int (width p), int (height p)),
     (int l + int w, int t, int (width p), int t + int h)]"
    using assms by (simp add: border_rects_def Let_def)
  show "in_box b x y \<longleftrightarrow> l \<le> x \<and> x < l + w \<and> t \<le> y \<and> y < t + h"
    unfolding in_box_def assms by linarith
qed

lemma border_tiling:
  assumes "box_left b = int l" "box_top b = int t" "box_width b = int w" "box_height b = int h"
    and "l + w \<le> width p" "t + h \<le> height p" "x < width p" "y < height p"
  shows "length (filter (\<lambda>r. in_rect (width p) (height p) r x y) (border_rects b p)) =
         (if in_box b x y then 0 else 1)"
    and "masked (width p) (height p) (border_rects b p) x y \<longleftrightarrow> \<not> in_box b x y"
proof -
  note r = border_rects_nat [OF assms(1-4)]
  note i = border_in_rect [OF assms(7,8,5,6)]
  show "length (filter (\<lambda>r. in_rect (width p) (height p) r x y) (border_rects b p)) =
         (if in_box b x y then 0 else 1)"
    unfolding r by (simp add: i)
  show "masked (width p) (height p) (border_rects b p) x y \<longleftrightarrow> \<not> in_box b x y"
    unfolding r masked_def by (simp add: i) linarith
qed

lemma box_complement_card:
  assumes "l + w \<le> (W::nat)" "t + h \<le> (H::nat)"
  shows "card {(x, y). x < W \<and> y < H \<and> \<not> (l \<le> x \<and> x < l + w \<and> t \<le> y \<and> y < t + h)} + w * h = W * H"
proof -
  let ?A = "{..<W} \<times> {..<H}" and ?B = "{l..<l + w} \<times> {t..<t + h}"
  have sub: "?B \<subseteq> ?A" using assms by auto
  have "{(x, y). x < W \<and> y < H \<and> \<not> (l \<le> x \<and> x < l + w \<and> t \<le> y \<and> y < t + h)} = ?A - ?B"
    by auto
  moreover have "card (?A - ?B) = card ?A - card ?B"
    by (intro card_Diff_subset sub) simp
  moreover have "card ?B \<le> card ?A"
    by (intro card_mono sub) simp
  ultimately show ?thesis by simp
qed

section \<open>Properties of the comparison loop\<close>


lemma compare_candidate_results:
  "\<exists>e. results (compare_candidate hp opts pm actual tot ig i cand st) = results st @ [e] \<and>
       entry_ok hp opts tot ig e \<and>
       variation e = variation_of (fst cand) \<and>
       diffPixels e = fst (pm (data (fst (applyBounds (bounds opts) (ignore opts) (snd cand))))
                             (data actual) (imgDiff st) (width actual) (height actual))"
  by (simp add: compare_candidate_def Let_def entry_ok_def)

lemma compare_candidate_best:
  assumes "best_inv tot st"
  shows "best_inv tot (compare_candidate hp opts pm actual tot ig (length (results st)) cand st)"
  using assms
  by (auto simp: compare_candidate_def Let_def best_inv_def nth_append list_all_iff
           split: if_splits dest: in_set_takeD)

lemma compare_loop_results:
  assumes "compare_loop hp opts pm actual tot ig i cands st = Inr st'"
  shows "\<exists>es. results st' = results st @ es \<and> length es = length cands \<and>
              list_all (entry_ok hp opts tot ig) es \<and>
              map variation es = map (variation_of \<circ> fst) cands"
  using assms
proof (induction cands arbitrary: i st)
  case Nil
  then show ?case by simp
next
  case (Cons cand cands)
  let ?st1 = "compare_candidate hp opts pm actual tot ig i cand st"
  from Cons.prems have loop: "compare_loop hp opts pm actual tot ig (i + 1) cands ?st1 = Inr st'"
    by (simp split: if_splits)
  obtain e where e: "results ?st1 = results st @ [e]" "entry_ok hp opts tot ig e"
      "variation e = variation_of (fst cand)"
    using compare_candidate_results by blast
  from Cons.IH [OF loop] obtain es where es: "results st' = results ?st1 @ es"
      "length es = length cands" "list_all (entry_ok hp opts tot ig) es"
      "map variation es = map (variation_of \<circ> fst) cands"
    by blast
  show ?case
    by (rule exI [of _ "e # es"]) (simp add: e es)
qed

lemma compare_loop_best:
  assumes "compare_loop hp opts pm actual tot ig i cands st = Inr st'"
    and "i = length (results st)" "best_inv tot st"
  shows "best_inv tot st'"
  using assms
proof (induction cands arbitrary: i st)
  case Nil
  then show ?case by simp
next
  case (Cons cand cands)
  let ?st1 = "compare_candidate hp opts pm actual tot ig i cand st"
  from Cons.prems have loop: "compare_loop hp opts pm actual tot ig (i + 1) cands ?st1 = Inr st'"
    by (simp split: if_splits)
  have len: "i + 1 = length (results ?st1)"
    using Cons.prems(2) compare_candidate_results [of hp opts pm actual tot ig i cand st] by auto
  have "best_inv tot ?st1"
    using Cons.prems(2,3) compare_candidate_best by simp
  with loop len show ?case by (rule Cons.IH)
qed

lemma compare_loop_mismatch:
  assumes "c \<in> set cands" "width (snd c) \<noteq> width actual \<or> height (snd c) \<noteq> height actual"
  shows "compare_loop hp opts pm actual tot ig i cands st = Inl ImageSizesDoNotMatch"
  using assms by (induction cands arbitrary: i st) auto



lemma best_inv_index:
  assumes "best_inv tot st" "results st \<noteq> []"
  shows "bestIndex st < length (results st)"
  using assms by (auto simp: best_inv_def split: if_splits)

lemma getVisualDifferences_Inr:
  assumes "getVisualDifferences hp opts pm actual cands = Inr out"
  defines "st \<equiv> final_state hp opts pm actual cands"
  shows "cands \<noteq> []" and "height actual \<noteq> 0"
    and "best_inv (width actual * height actual) st"
    and "variations (res out) = results st"
    and "length (results st) = length cands"
    and "bestIndex st < length (results st)"
    and "list_all (entry_ok hp opts (width actual * height actual)
                     (snd (applyBounds (bounds opts) (ignore opts) actual))) (results st)"
    and "map variation (results st) = map (variation_of \<circ> fst) cands"
    and "match (res out) = match (results st ! bestIndex st)"
    and "difference (res out) = difference (results st ! bestIndex st)"
    and "diffImage (res out) = diffImage (results st ! bestIndex st)"
    and "diffPixels (res out) = diffPixels (results st ! bestIndex st)"
    and "totalPixels (res out) = totalPixels (results st ! bestIndex st)"
    and "relevantPixels (res out) = relevantPixels (results st ! bestIndex st)"
    and "variation (res out) = variation (results st ! bestIndex st)"
    and "diffWritten out = (if \<not> match (res out) \<and> diffEnabled hp then bestImgDiff st else None)"
    and "compare_loop hp opts pm (fst (applyBounds (bounds opts) (ignore opts) actual))
           (width actual * height actual) (snd (applyBounds (bounds opts) (ignore opts) actual)) 0 cands
           \<lparr>results = [], bestIndex = 0, bestDifference = width actual * height actual,
             bestImgDiff = None, imgDiff = replicate (4 * width actual * height actual) 0\<rparr> = Inr st"
proof -
  let ?tot = "width actual * height actual"
  let ?m = "applyBounds (bounds opts) (ignore opts) actual"
  let ?st0 = "\<lparr>results = [], bestIndex = 0, bestDifference = ?tot,
               bestImgDiff = None, imgDiff = replicate (4 * width actual * height actual) 0\<rparr>"
  from assms(1) show ne: "cands \<noteq> []" and h: "height actual \<noteq> 0"
    by (auto simp: getVisualDifferences_def split: if_splits)
  from assms(1) ne h obtain st' where
    loop': "compare_loop hp opts pm (fst ?m) ?tot (snd ?m) 0 cands ?st0 = Inr st'"
    by (auto simp: getVisualDifferences_def Let_def split: sum.splits)
  then have st: "st = st'" by (simp add: st_def final_state_def Let_def)
  with loop' show loop: "compare_loop hp opts pm (fst ?m) ?tot (snd ?m) 0 cands ?st0 = Inr st"
    by simp
  from assms(1) ne h loop have out: "out = \<lparr>res = \<lparr>match = match (results st ! bestIndex st),
                 difference = difference (results st ! bestIndex st),
                 diffImage = diffImage (results st ! bestIndex st),
                 diffPixels = diffPixels (results st ! bestIndex st),
                 totalPixels = totalPixels (results st ! bestIndex st),
                 relevantPixels = relevantPixels (results st ! bestIndex st),
                 variation = variation (results st ! bestIndex st), variations = results st\<rparr>,
               diffWritten = (if \<not> match (results st ! bestIndex st) \<and> diffEnabled hp
                              then bestImgDiff st else None)\<rparr>"
    by (simp add: getVisualDifferences_def Let_def)
  have "best_inv ?tot ?st0" by (simp add: best_inv_def)
  then show inv: "best_inv ?tot st" by (intro compare_loop_best [OF loop]) simp_all
  from compare_loop_results [OF loop] show r: "length (results st) = length cands"
    "list_all (entry_ok hp opts ?tot (snd ?m)) (results st)"
    "map variation (results st) = map (variation_of \<circ> fst) cands"
    by auto
  from r(1) ne have "results st \<noteq> []" by auto
  with inv show "bestIndex st < length (results st)" by (rule best_inv_index)
  show "variations (res out) = results st"
    and "match (res out) = match (results st ! bestIndex st)"
    and "difference (res out) = difference (results st ! bestIndex st)"
    and "diffImage (res out) = diffImage (results st ! bestIndex st)"
    and "diffPixels (res out) = diffPixels (results st ! bestIndex st)"
    and "totalPixels (res out) = totalPixels (results st ! bestIndex st)"
    and "relevantPixels (res out) = relevantPixels (results st ! bestIndex st)"
    and "variation (res out) = variation (results st ! bestIndex st)"
    and "diffWritten out = (if \<not> match (res out) \<and> diffEnabled hp then bestImgDiff st else None)"
    by (simp_all add: out)
qed

section \<open>Further properties used by the claims\<close>

lemma opaque_in_rect:
  "{(x, y). in_rect (width p) (height p) r x y \<and> 0 < alpha_at p x y} =
   opaque p \<inter> {(x, y). in_rect (width p) (height p) r x y}"
  by (auto simp: opaque_def dest: in_rect_inside)

lemma opaque_masked:
  "{(x, y). masked (width p) (height p) rs x y \<and> 0 < alpha_at p x y} =
   {(x, y) \<in> opaque p. masked (width p) (height p) rs x y}"
  by (auto simp: opaque_def dest: masked_inside)

lemma clearRect_twice:
  assumes "decoded p"
  shows "snd (clearRect (fst (clearRect p x0 y0 x1 y1)) x0 y0 x1 y1) = 0"
proof -
  let ?p1 = "fst (clearRect p x0 y0 x1 y1)"
  have "alpha_at ?p1 x y = 0" if "in_rect (width p) (height p) (x0, y0, x1, y1) x y" for x y
    using that in_rect_inside [OF that] assms by (simp add: alpha_at_clearRect)
  then have "{(x, y). in_rect (width ?p1) (height ?p1) (x0, y0, x1, y1) x y \<and> 0 < alpha_at ?p1 x y} = {}"
    by auto
  then show ?thesis
    using clearRect_count [OF clearRect_decoded [OF assms], of x0 y0 x1 y1 x0 y0 x1 y1] by simp
qed

lemma applyBounds_box_only:
  assumes "decoded p" "useBounds b"
    and "box_left b = int l" "box_top b = int t" "box_width b = int w" "box_height b = int h"
    and "l + w \<le> width p" "t + h \<le> height p"
    and "\<forall>x<width p. \<forall>y<height p. 0 < alpha_at p x y"
  shows "snd (applyBounds b [] p) + w * h = width p * height p"
proof -
  let ?W = "width p" and ?H = "height p"
  have m: "masked ?W ?H (border_rects b p) x y \<longleftrightarrow>
           x < ?W \<and> y < ?H \<and> \<not> (l \<le> x \<and> x < l + w \<and> t \<le> y \<and> y < t + h)" for x y
  proof (cases "x < ?W \<and> y < ?H")
    case True
    then show ?thesis
      using border_tiling(2) [OF assms(3-8), of x y] border_rects_nat(2) [OF assms(3-6), of x y]
      by simp
  next
    case False
    then show ?thesis using masked_inside by blast
  qed
  have "{(x, y). masked ?W ?H (border_rects b p) x y \<and> 0 < alpha_at p x y} =
        {(x, y). x < ?W \<and> y < ?H \<and> \<not> (l \<le> x \<and> x < l + w \<and> t \<le> y \<and> y < t + h)}"
    unfolding m using assms(9) by auto
  then have "snd (applyBounds b [] p) =
      card {(x, y). x < ?W \<and> y < ?H \<and> \<not> (l \<le> x \<and> x < l + w \<and> t \<le> y \<and> y < t + h)}"
    using assms(1,2) by (simp add: applyBounds_clear_all mask_rects_def clear_all_count)
  then show ?thesis
    using box_complement_card [OF assms(7,8)] by simp
qed

lemma applyBounds_dims [simp]:
  "width (fst (applyBounds b ig p)) = width p"
  "height (fst (applyBounds b ig p)) = height p"
  by (simp_all add: applyBounds_clear_all)

lemma applyBounds_decoded: "decoded p \<Longrightarrow> decoded (fst (applyBounds b ig p))"
  by (simp add: applyBounds_clear_all clear_all_decoded)


lemma all_zero_data:
  assumes "decoded p"
    and z: "\<And>x y k. x < width p \<Longrightarrow> y < height p \<Longrightarrow> k < 4 \<Longrightarrow> channel p x y k = 0"
  shows "data p = replicate (4 * width p * height p) 0"
proof (rule nth_equalityI)
  show "length (data p) = length (replicate (4 * width p * height p) (0::byte))"
    using assms(1) by (simp add: decoded_def)
next
  fix j assume "j < length (data p)"
  then have j: "j < 4 * (width p * height p)" using assms(1) by (simp add: decoded_def mult.assoc)
  let ?i = "j div 4" and ?k = "j mod 4"
  let ?x = "?i mod width p" and ?y = "?i div width p"
  from j have i: "?i < width p * height p" by simp
  then have w: "0 < width p" by (cases "width p") simp_all
  then have x: "?x < width p" by simp
  from i have y: "?y < height p" by (simp add: less_mult_imp_div_less mult.commute)
  have "j = 4 * (?x + width p * ?y) + ?k" by simp
  then have "data p ! j = channel p ?x ?y ?k" by (simp add: channel_def)
  also have "\<dots> = 0" using x y by (intro z) simp_all
  finally show "data p ! j = replicate (4 * width p * height p) 0 ! j"
    using j by (simp add: mult.assoc)
qed

lemma mask_rects_dims:
  "width p' = width p \<Longrightarrow> height p' = height p \<Longrightarrow> mask_rects b ig p' = mask_rects b ig p"
  by (simp add: mask_rects_def border_rects_def)

lemma fully_masked_data:
  assumes "decoded p"
    and "\<And>x y. x < width p \<Longrightarrow> y < height p \<Longrightarrow> masked (width p) (height p) (mask_rects b ig p) x y"
  shows "data (fst (applyBounds b ig p)) = replicate (4 * width p * height p) 0"
proof -
  let ?p' = "fst (applyBounds b ig p)"
  have "data ?p' = replicate (4 * width ?p' * height ?p') 0"
  proof (rule all_zero_data)
    show "decoded ?p'" using assms(1) by (rule applyBounds_decoded)
  next
    fix x y k assume "x < width ?p'" "y < height ?p'" "k < (4::nat)"
    then show "channel ?p' x y k = 0"
      using assms by (simp add: applyBounds_clear_all clear_all_channel)
  qed
  then show ?thesis by simp
qed

lemma fully_masked_all:
  assumes "decoded p" and "width p * height p \<le> snd (applyBounds b ig p)"
    and "x < width p" "y < height p"
  shows "masked (width p) (height p) (mask_rects b ig p) x y"
proof -
  let ?S = "{(x, y). masked (width p) (height p) (mask_rects b ig p) x y \<and> 0 < alpha_at p x y}"
  let ?R = "{..<width p} \<times> {..<height p}"
  have sub: "?S \<subseteq> ?R" by (auto dest: masked_inside)
  have "snd (applyBounds b ig p) = card ?S"
    using assms(1) by (simp add: applyBounds_clear_all clear_all_count)
  with assms(2) have "card ?R \<le> card ?S" by simp
  with sub have "?S = ?R" by (intro card_seteq) simp_all
  with assms(3,4) have "(x, y) \<in> ?S" by simp
  then show ?thesis by simp
qed

lemma compare_loop_no_difference:
  assumes "compare_loop hp opts pm actual tot ig i cands st = Inr st'"
    and "\<forall>c\<in>set cands. width (snd c) = width actual \<and> height (snd c) = height actual \<longrightarrow>
           (\<forall>d. fst (pm (data (fst (applyBounds (bounds opts) (ignore opts) (snd c)))) (data actual) d
                        (width actual) (height actual)) = 0)"
    and "\<forall>e\<in>set (results st). diffPixels e = 0"
  shows "\<forall>e\<in>set (results st'). diffPixels e = 0"
  using assms
proof (induction cands arbitrary: i st)
  case Nil
  then show ?case by simp
next
  case (Cons cand cands)
  let ?st1 = "compare_candidate hp opts pm actual tot ig i cand st"
  from Cons.prems(1) have dims: "width (snd cand) = width actual \<and> height (snd cand) = height actual"
    and loop: "compare_loop hp opts pm actual tot ig (i + 1) cands ?st1 = Inr st'"
    by (simp_all split: if_splits)
  from Cons.prems(2) dims have
    "fst (pm (data (fst (applyBounds (bounds opts) (ignore opts) (snd cand)))) (data actual) (imgDiff st)
            (width actual) (height actual)) = 0"
    by simp
  with Cons.prems(3) have "\<forall>e\<in>set (results ?st1). diffPixels e = 0"
    using compare_candidate_results [of hp opts pm actual tot ig i cand st] by auto
  with loop Cons.prems(2) show ?case by (intro Cons.IH [of "i + 1" ?st1]) simp_all
qed

lemma count_diff_same: "e = a \<Longrightarrow> count_diff e a = 0"
  by (induction e a rule: count_diff.induct) auto

section \<open>The claims\<close>

text \<open>
  Claim C1. In every comparison that returns a result, and in which no candidate has
  more different pixels than the image has pixels, the scalar fields of the result
  are those of the candidate at the first position of the least \<open>diffPixels\<close>: no
  candidate has fewer different pixels and every earlier candidate has strictly more.
  For the counts 5, 5, 3, 3 this is the candidate at index 2.
\<close>

theorem best_is_first_minimum:
  assumes "getVisualDifferences hp opts pm actual cands = Inr out"
    and "\<forall>v\<in>set (variations (res out)). diffPixels v \<le> totalPixels v"
  shows "\<exists>b. first_min (map diffPixels (variations (res out))) b \<and>
             match (res out) = match (variations (res out) ! b) \<and>
             difference (res out) = difference (variations (res out) ! b) \<and>
             diffImage (res out) = diffImage (variations (res out) ! b) \<and>
             diffPixels (res out) = diffPixels (variations (res out) ! b) \<and>
             totalPixels (res out) = totalPixels (variations (res out) ! b) \<and>
             relevantPixels (res out) = relevantPixels (variations (res out) ! b) \<and>
             variation (res out) = variation (variations (res out) ! b)"
proof -
  let ?st = "final_state hp opts pm actual cands"
  let ?tot = "width actual * height actual"
  let ?vs = "results ?st"
  let ?b = "bestIndex ?st"
  note f = getVisualDifferences_Inr [OF assms(1)]
  have vs: "variations (res out) = ?vs" by (rule f(4))
  have b: "?b < length ?vs" by (rule f(6))
  have le: "diffPixels v \<le> ?tot" if "v \<in> set ?vs" for v
  proof -
    from that f(7) have "entry_ok hp opts ?tot (snd (applyBounds (bounds opts) (ignore opts) actual)) v"
      by (simp add: list_all_iff)
    then have "totalPixels v = ?tot" by (simp add: entry_ok_def)
    with assms(2) that show ?thesis unfolding vs by force
  qed
  have "first_min (map diffPixels ?vs) ?b"
  proof (cases "bestDifference ?st < ?tot")
    case True
    with f(3) show ?thesis
      using b by (simp add: best_inv_def first_min_def list_all_iff take_map)
  next
    case False
    with f(3) have z: "?b = 0" and all: "\<forall>v\<in>set ?vs. ?tot \<le> diffPixels v"
      by (auto simp: best_inv_def list_all_iff)
    from all le have eq: "\<forall>v\<in>set ?vs. diffPixels v = ?tot" by (simp add: le_antisym)
    moreover from b have "?vs ! ?b \<in> set ?vs" by simp
    ultimately show ?thesis
      using b z by (simp add: first_min_def list_all_iff)
  qed
  then show ?thesis
    unfolding vs using f(9-15) by blast
qed

theorem best_is_first_minimum_witness:
  "\<exists>out. getVisualDifferences shot_helper (plain_options (Fin 0)) plain_differ (row [0, 0, 0, 0, 0])
            [(''/base/shot.png'', row [9, 9, 9, 9, 9]), (''/base/shot~1.png'', row [9, 9, 9, 9, 9]),
             (''/base/shot~2.png'', row [0, 9, 9, 9, 0]), (''/base/shot~3.png'', row [9, 9, 0, 0, 9])]
          = Inr out \<and>
       (\<forall>v\<in>set (variations (res out)). diffPixels v \<le> totalPixels v) \<and>
       map diffPixels (variations (res out)) = [5, 5, 3, 3] \<and>
       (\<exists>b. first_min (map diffPixels (variations (res out))) b \<and> b = 2 \<and>
            variation (res out) = variation (variations (res out) ! b)) \<and>
       variation (res out) = ''2''"
proof -
  let ?out = "\<lparr>res = \<lparr>match = False, difference = Fin 60, diffImage = ''Diff_shot.2.png'',
           diffPixels = 3, totalPixels = 5, relevantPixels = 5, variation = ''2'',
           variations =
             [\<lparr>match = False, difference = Fin 100, diffImage = ''Diff_shot.png'',
                 diffPixels = 5, totalPixels = 5, relevantPixels = 5, variation = []\<rparr>,
              \<lparr>match = False, difference = Fin 100, diffImage = ''Diff_shot.1.png'',
                 diffPixels = 5, totalPixels = 5, relevantPixels = 5, variation = ''1''\<rparr>,
              \<lparr>match = False, difference = Fin 60, diffImage = ''Diff_shot.2.png'',
                 diffPixels = 3, totalPixels = 5, relevantPixels = 5, variation = ''2''\<rparr>,
              \<lparr>match = False, difference = Fin 60, diffImage = ''Diff_shot.3.png'',
                 diffPixels = 3, totalPixels = 5, relevantPixels = 5, variation = ''3''\<rparr>]\<rparr>,
        diffWritten = Some (replicate 20 0)\<rparr>"
  have e: "getVisualDifferences shot_helper (plain_options (Fin 0)) plain_differ (row [0, 0, 0, 0, 0])
            [(''/base/shot.png'', row [9, 9, 9, 9, 9]), (''/base/shot~1.png'', row [9, 9, 9, 9, 9]),
             (''/base/shot~2.png'', row [0, 9, 9, 9, 0]), (''/base/shot~3.png'', row [9, 9, 0, 0, 9])]
          = Inr ?out"
    by code_simp
  have h: "\<forall>v\<in>set (variations (res ?out)). diffPixels v \<le> totalPixels v" by simp
  from best_is_first_minimum [OF e h] obtain b where
    b: "first_min (map diffPixels (variations (res ?out))) b"
       "variation (res ?out) = variation (variations (res ?out) ! b)"
    by blast
  from b(1) have "b < 4" by (simp add: first_min_def)
  then have "b = 0 \<or> b = 1 \<or> b = 2 \<or> b = 3" by arith
  with b(1) have "b = 2" by (auto simp: first_min_def)
  with b e h show ?thesis by (intro exI [of _ ?out]) simp
qed



text \<open>
  Claim C3: the first candidate always initialises the best match so far and leaves a
  snapshot of its diff raster, so that a snapshot exists to be written whenever the
  best candidate does not match. This fails where the first candidate differs from
  the actual image in every pixel: for a black actual pixel and a white candidate
  pixel the only candidate does not match and names a diff image, yet no snapshot is
  kept after it (\<open>bestImgDiff\<close> stays \<open>undefined\<close>) and no diff image is written.
\<close>

theorem no_snapshot_when_every_pixel_differs:
  "getVisualDifferences shot_helper (plain_options (Fin 0)) plain_differ (row [0])
     [(''/base/shot.png'', row [255])] =
   Inr \<lparr>res = \<lparr>match = False, difference = Fin 100, diffImage = ''Diff_shot.png'',
                diffPixels = 1, totalPixels = 1, relevantPixels = 1, variation = [],
                variations =
                  [\<lparr>match = False, difference = Fin 100, diffImage = ''Diff_shot.png'',
                    diffPixels = 1, totalPixels = 1, relevantPixels = 1, variation = []\<rparr>]\<rparr>,
        diffWritten = None\<rparr> \<and>
   bestImgDiff (final_state shot_helper (plain_options (Fin 0)) plain_differ (row [0])
     [(''/base/shot.png'', row [255])]) = None"
  by code_simp

text \<open>
  Claim C4. For an active bounding box that lies inside a decoded \<open>W x H\<close> raster, the
  four border rectangles of \<open>_applyBounds\<close> tile the complement of the box: a pixel of
  the box lies in none of them, every other pixel of the raster in exactly one. So,
  when every pixel of the raster is opaque and no region is ignored, the count
  \<open>_applyBounds\<close> returns plus the area of the box is \<open>W * H\<close>, and a comparison of that
  raster reports the area of the box as \<open>relevantPixels\<close>.
\<close>

theorem border_rects_tile:
  assumes "decoded p" and "useBounds b"
    and "0 \<le> box_left b" "0 \<le> box_top b" "0 \<le> box_width b" "0 \<le> box_height b"
    and "box_left b + box_width b \<le> int (width p)" "box_top b + box_height b \<le> int (height p)"
  shows "(\<forall>x<width p. \<forall>y<height p.
            length (filter (\<lambda>r. in_rect (width p) (height p) r x y) (border_rects b p)) =
            (if in_box b x y then 0 else 1)) \<and>
         ((\<forall>x<width p. \<forall>y<height p. 0 < alpha_at p x y) \<longrightarrow>
            snd (applyBounds b [] p) + nat (box_width b * box_height b) = width p * height p \<and>
            (\<forall>hp opts pm cands out.
               bounds opts = b \<and> ignore opts = [] \<and>
               getVisualDifferences hp opts pm p cands = Inr out \<longrightarrow>
               relevantPixels (res out) = nat (box_width b * box_height b)))"
proof -
  obtain l t w h where n: "box_left b = int l" "box_top b = int t" "box_width b = int w" "box_height b = int h"
    using assms(3-6) by (metis nonneg_int_cases)
  have le: "l + w \<le> width p" "t + h \<le> height p"
    using assms(7,8) unfolding n by linarith+
  have area: "nat (box_width b * box_height b) = w * h"
    unfolding n by (simp add: nat_mult_distrib)
  have tile: "\<forall>x<width p. \<forall>y<height p.
            length (filter (\<lambda>r. in_rect (width p) (height p) r x y) (border_rects b p)) =
            (if in_box b x y then 0 else 1)"
    using border_tiling(1) [OF n le] by blast
  have count: "snd (applyBounds b [] p) + w * h = width p * height p"
    if "\<forall>x<width p. \<forall>y<height p. 0 < alpha_at p x y"
    using applyBounds_box_only [OF assms(1,2) n le that] .
  have rel: "relevantPixels (res out) = w * h"
    if o: "\<forall>x<width p. \<forall>y<height p. 0 < alpha_at p x y"
      and g: "bounds opts = b" "ignore opts = []" "getVisualDifferences hp opts pm p cands = Inr out"
    for hp opts pm cands out
  proof -
    let ?st = "final_state hp opts pm p cands"
    note f = getVisualDifferences_Inr [OF g(3)]
    have st: "bestIndex ?st < length (results ?st)"
        "list_all (entry_ok hp opts (width p * height p) (snd (applyBounds b [] p))) (results ?st)"
        "relevantPixels (res out) = relevantPixels (results ?st ! bestIndex ?st)"
      using f(6,7,14) unfolding g(1,2) by simp_all
    from st(1,2) have "entry_ok hp opts (width p * height p) (snd (applyBounds b [] p)) (results ?st ! bestIndex ?st)"
      by (simp add: list_all_length)
    then have "relevantPixels (res out) = width p * height p - snd (applyBounds b [] p)"
      using st(3) by (simp add: entry_ok_def)
    with count [OF o] show ?thesis by simp
  qed
  show ?thesis
    unfolding area using tile count rel by blast
qed

theorem border_rects_tile_witness:
  "decoded \<lparr>width = 10, height = 10, data = replicate 400 255\<rparr> \<and>
   useBounds \<lparr>box_left = 0, box_top = 0, box_width = 5, box_height = 10\<rparr> \<and>
   snd (applyBounds \<lparr>box_left = 0, box_top = 0, box_width = 5, box_height = 10\<rparr> []
          \<lparr>width = 10, height = 10, data = replicate 400 255\<rparr>) + 50 = 100 \<and>
   length (filter (\<lambda>r. in_rect 10 10 r 7 3)
             (border_rects \<lparr>box_left = 0, box_top = 0, box_width = 5, box_height = 10\<rparr>
                \<lparr>width = 10, height = 10, data = replicate 400 255\<rparr>)) = 1 \<and>
   length (filter (\<lambda>r. in_rect 10 10 r 2 3)
             (border_rects \<lparr>box_left = 0, box_top = 0, box_width = 5, box_height = 10\<rparr>
                \<lparr>width = 10, height = 10, data = replicate 400 255\<rparr>)) = 0"
proof -
  let ?p = "\<lparr>width = 10, height = 10, data = replicate 400 255\<rparr>"
  let ?b = "\<lparr>box_left = 0, box_top = 0, box_width = 5, box_height = 10\<rparr>"
  have d: "decoded ?p" by (simp add: decoded_def)
  have u: "useBounds ?b" by (simp add: useBounds_def)
  have o: "\<forall>x<10. \<forall>y<10. 0 < alpha_at ?p x y"
  proof (intro allI impI)
    fix x y :: nat assume "x < 10" "y < 10"
    then have "4 * (x + 10 * y) + 3 < 400" by simp
    then show "0 < alpha_at ?p x y" by (simp add: alpha_at_def channel_def)
  qed
  have i: "\<not> in_box ?b 7 3" "in_box ?b 2 3" by (simp_all add: in_box_def)
  from border_rects_tile [OF d u] o have
    t: "\<forall>x<10. \<forall>y<10. length (filter (\<lambda>r. in_rect 10 10 r x y) (border_rects ?b ?p)) =
          (if in_box ?b x y then 0 else 1)"
    and c: "snd (applyBounds ?b [] ?p) + 50 = 100"
    by simp_all
  from t i have "length (filter (\<lambda>r. in_rect 10 10 r 7 3) (border_rects ?b ?p)) = 1"
    and "length (filter (\<lambda>r. in_rect 10 10 r 2 3) (border_rects ?b ?p)) = 0"
    by simp_all
  with d u c show ?thesis by (simp only:)
qed



text \<open>
  Claim C6. On a decoded raster, clearing the same rectangle a second time returns 0;
  a clear counts only the pixels of its rectangle whose alpha byte is positive; and
  the total \<open>_applyBounds\<close> returns is exactly the number of pixels whose alpha byte
  went from positive to 0, which are the opaque pixels that at least one of the
  cleared rectangles covers: each is counted once, however the rectangles overlap.
\<close>

theorem clear_count_exact:
  assumes "decoded p"
  shows "snd (clearRect (fst (clearRect p x0 y0 x1 y1)) x0 y0 x1 y1) = 0 \<and>
         snd (clearRect p x0 y0 x1 y1) =
           card (opaque p \<inter> {(x, y). in_rect (width p) (height p) (x0, y0, x1, y1) x y}) \<and>
         (let r = applyBounds b ig p in
            opaque (fst r) \<subseteq> opaque p \<and>
            snd r = card (opaque p - opaque (fst r)) \<and>
            opaque p - opaque (fst r) =
              {(x, y) \<in> opaque p. masked (width p) (height p) (mask_rects b ig p) x y})"
proof -
  let ?M = "{(x, y). masked (width p) (height p) (mask_rects b ig p) x y}"
  let ?r = "applyBounds b ig p"
  have o: "opaque (fst ?r) = opaque p - ?M"
    by (simp add: applyBounds_clear_all opaque_clear_all [OF assms])
  then have d: "opaque p - opaque (fst ?r) = {(x, y) \<in> opaque p. masked (width p) (height p) (mask_rects b ig p) x y}"
    by auto
  have "snd ?r = card {(x, y) \<in> opaque p. masked (width p) (height p) (mask_rects b ig p) x y}"
    by (simp add: applyBounds_clear_all clear_all_count [OF assms] opaque_masked)
  with o d have "opaque (fst ?r) \<subseteq> opaque p \<and> snd ?r = card (opaque p - opaque (fst ?r)) \<and>
      opaque p - opaque (fst ?r) = {(x, y) \<in> opaque p. masked (width p) (height p) (mask_rects b ig p) x y}"
    by (simp only:) auto
  moreover note clearRect_twice [OF assms, of x0 y0 x1 y1]
  moreover have "snd (clearRect p x0 y0 x1 y1) =
           card (opaque p \<inter> {(x, y). in_rect (width p) (height p) (x0, y0, x1, y1) x y})"
    by (simp add: clearRect_count [OF assms] opaque_in_rect)
  ultimately show ?thesis by (simp only: Let_def) 
qed

theorem clear_count_exact_witness:
  "decoded \<lparr>width = 2, height = 2, data = replicate 16 255\<rparr> \<and>
   snd (applyBounds no_bounds
          [\<lparr>box_left = 0, box_top = 0, box_width = 2, box_height = 1\<rparr>,
           \<lparr>box_left = 0, box_top = 0, box_width = 1, box_height = 2\<rparr>]
          \<lparr>width = 2, height = 2, data = replicate 16 255\<rparr>) = 3 \<and>
   card (opaque \<lparr>width = 2, height = 2, data = replicate 16 255\<rparr> -
         opaque (fst (applyBounds no_bounds
          [\<lparr>box_left = 0, box_top = 0, box_width = 2, box_height = 1\<rparr>,
           \<lparr>box_left = 0, box_top = 0, box_width = 1, box_height = 2\<rparr>]
          \<lparr>width = 2, height = 2, data = replicate 16 255\<rparr>))) = 3 \<and>
   snd (clearRect (fst (clearRect \<lparr>width = 2, height = 2, data = replicate 16 255\<rparr> 0 0 2 1)) 0 0 2 1) = 0"
proof -
  let ?p = "\<lparr>width = 2, height = 2, data = replicate 16 255\<rparr>"
  let ?ig = "[\<lparr>box_left = 0, box_top = 0, box_width = 2, box_height = 1\<rparr>,
              \<lparr>box_left = 0, box_top = 0, box_width = 1, box_height = 2\<rparr>]"
  have d: "decoded ?p" by (simp add: decoded_def)
  have e: "snd (applyBounds no_bounds ?ig ?p) = 3" by code_simp
  from clear_count_exact [OF d, of 0 0 2 1 no_bounds ?ig] have
    "snd (clearRect (fst (clearRect ?p 0 0 2 1)) 0 0 2 1) = 0"
    "snd (applyBounds no_bounds ?ig ?p) = card (opaque ?p - opaque (fst (applyBounds no_bounds ?ig ?p)))"
    by (simp_all only: Let_def)
  with d e show ?thesis by (simp only:)
qed

text \<open>
  Claim C7. When the actual image is not empty and some candidate in the list has a
  width or a height other than that of the actual image, the comparison ends with the
  error \<open>Image sizes do not match\<close>, whatever the other candidates are and wherever
  in the list the candidate stands: it is not skipped and no result is returned.
\<close>

theorem size_mismatch_aborts:
  assumes "height actual \<noteq> 0"
    and "c \<in> set cands"
    and "width (snd c) \<noteq> width actual \<or> height (snd c) \<noteq> height actual"
  shows "getVisualDifferences hp opts pm actual cands = Inl ImageSizesDoNotMatch"
proof -
  let ?m = "applyBounds (bounds opts) (ignore opts) actual"
  from assms(2) have ne: "cands \<noteq> []" by auto
  have "width (snd c) \<noteq> width (fst ?m) \<or> height (snd c) \<noteq> height (fst ?m)"
    using assms(3) by simp
  then have "compare_loop hp opts pm (fst ?m) tot ig i cands st = Inl ImageSizesDoNotMatch" for tot ig i st
    using assms(2) by (intro compare_loop_mismatch)
  then show ?thesis
    using assms(1) ne by (simp add: getVisualDifferences_def Let_def)
qed

theorem size_mismatch_aborts_witness:
  "height \<lparr>width = 1, height = 1, data = [0, 0, 0, 255]\<rparr> \<noteq> 0 \<and>
   (''/base/shot~2.png'', \<lparr>width = 2, height = 1, data = [0, 0, 0, 255, 0, 0, 0, 255]\<rparr>)
     \<in> set [(''/base/shot.png'', \<lparr>width = 1, height = 1, data = [0, 0, 0, 255]\<rparr>),
             (''/base/shot~2.png'', \<lparr>width = 2, height = 1, data = [0, 0, 0, 255, 0, 0, 0, 255]\<rparr>),
             (''/base/shot~3.png'', \<lparr>width = 1, height = 1, data = [0, 0, 0, 255]\<rparr>)] \<and>
   getVisualDifferences \<lparr>diffEnabled = True, diffFileName = (\<lambda>i. ''Diff_shot.png'')\<rparr>
     \<lparr>tolerance = Fin 0, bounds = no_bounds, ignore = []\<rparr> plain_differ
     \<lparr>width = 1, height = 1, data = [0, 0, 0, 255]\<rparr>
     [(''/base/shot.png'', \<lparr>width = 1, height = 1, data = [0, 0, 0, 255]\<rparr>),
      (''/base/shot~2.png'', \<lparr>width = 2, height = 1, data = [0, 0, 0, 255, 0, 0, 0, 255]\<rparr>),
      (''/base/shot~3.png'', \<lparr>width = 1, height = 1, data = [0, 0, 0, 255]\<rparr>)]
   = Inl ImageSizesDoNotMatch"
proof -
  let ?a = "\<lparr>width = 1, height = 1, data = [0, 0, 0, 255 :: byte]\<rparr>"
  let ?c = "(''/base/shot~2.png'', \<lparr>width = 2, height = 1, data = [0, 0, 0, 255, 0, 0, 0, 255 :: byte]\<rparr>)"
  let ?cs = "[(''/base/shot.png'', ?a), ?c, (''/base/shot~3.png'', ?a)]"
  have h: "height ?a \<noteq> 0" by simp
  have m: "?c \<in> set ?cs" by simp
  have w: "width (snd ?c) \<noteq> width ?a \<or> height (snd ?c) \<noteq> height ?a" by simp
  from size_mismatch_aborts [OF h m w] h m show ?thesis by blast
qed

text \<open>
  Claim C8: the variation label of a candidate is empty exactly for the canonical file
  \<open>name.png\<close>, and otherwise the text between \<open>~\<close> and \<open>.png\<close> of its file name. This
  fails for a candidate whose directory has a \<open>~\<close> in its name: the resolver returns
  \<open>/data/~base/shot.png\<close> for the canonical file \<open>shot.png\<close> in the directory
  \<open>/data/~base\<close>, and its label is \<open>base/shot\<close>, not the empty string.
\<close>

theorem variation_of_canonical_file_in_tilde_directory:
  "getExpectedImagePaths ''/data/~base'' ''shot'' [''shot.png''] = [''/data/~base/shot.png''] \<and>
   variation_of ''/data/~base/shot.png'' = ''base/shot''"
  by code_simp

text \<open>
  Claim C9: after \<open>_setupTest\<close> the tolerance lies between 0 and 100, whatever the
  caller passes. This fails for a tolerance above 100 passed with the options of a
  comparison: \<open>_setupTest\<close> stores 150 as it is, which is not at most 100, while the
  constructor turns the same value into 100.
\<close>

theorem setupTest_keeps_tolerance_above_100:
  "tolerance (setupTest (constructor_tolerance None)
     (Some \<lparr>opt_tolerance = Some (Fin 150), opt_element = None, opt_bounds = None, opt_ignore = []\<rparr>))
     = Fin 150 \<and>
   \<not> js_le (Fin 150) (Fin 100) \<and>
   constructor_tolerance (Some (Fin 150)) = Fin 100"
  by (simp add: setupTest_def constructor_tolerance_def math_max_def math_min_def)

text \<open>
  Claim C10. When the rasters are decoded, the differ finds no difference between
  equal buffers, and the mask leaves no relevant pixel (\<open>relevantPixels = 0\<close>), every
  candidate of a comparison that returns a result has the difference \<open>NaN\<close> and does
  not match, and so does the result itself, whatever the tolerance is.
\<close>

theorem fully_masked_never_matches:
  assumes "getVisualDifferences hp opts pm actual cands = Inr out"
    and "decoded actual" and "\<forall>c\<in>set cands. decoded (snd c)"
    and "relevantPixels (res out) = 0"
    and "\<forall>e d w h. fst (pm e e d w h) = 0"
  shows "(\<forall>v\<in>set (variations (res out)). difference v = NaN \<and> \<not> match v) \<and>
         difference (res out) = NaN \<and> \<not> match (res out)"
proof -
  let ?st = "final_state hp opts pm actual cands"
  let ?W = "width actual" and ?H = "height actual"
  let ?b = "bounds opts" and ?ig = "ignore opts"
  let ?m = "applyBounds ?b ?ig actual"
  note f = getVisualDifferences_Inr [OF assms(1)]
  have ok: "entry_ok hp opts (?W * ?H) (snd ?m) v" if "v \<in> set (results ?st)" for v
    using that f(7) by (simp add: list_all_iff)
  have best: "results ?st ! bestIndex ?st \<in> set (results ?st)"
    using f(6) by simp
  from ok [OF best] assms(4) f(14) have full: "?W * ?H \<le> snd ?m"
    by (simp add: entry_ok_def)
  have all: "masked ?W ?H (mask_rects ?b ?ig actual) x y" if "x < ?W" "y < ?H" for x y
    using assms(2) full that by (rule fully_masked_all)
  have a0: "data (fst ?m) = replicate (4 * ?W * ?H) 0"
    using assms(2) all by (rule fully_masked_data)
  have c0: "data (fst (applyBounds ?b ?ig (snd c))) = replicate (4 * ?W * ?H) 0"
    if c: "c \<in> set cands" and d: "width (snd c) = ?W \<and> height (snd c) = ?H" for c
  proof -
    have "decoded (snd c)" using assms(3) c by simp
    moreover have "masked (width (snd c)) (height (snd c)) (mask_rects ?b ?ig (snd c)) x y"
      if "x < width (snd c)" "y < height (snd c)" for x y
      using all [of x y] that d mask_rects_dims [of "snd c" actual ?b ?ig] by simp
    ultimately have "data (fst (applyBounds ?b ?ig (snd c))) =
        replicate (4 * width (snd c) * height (snd c)) 0"
      by (rule fully_masked_data)
    with d show ?thesis by simp
  qed
  have zero: "\<forall>e\<in>set (results ?st). diffPixels e = 0"
  proof (rule compare_loop_no_difference [OF f(17)])
    show "\<forall>c\<in>set cands.
       width (snd c) = width (fst ?m) \<and> height (snd c) = height (fst ?m) \<longrightarrow>
       (\<forall>d. fst (pm (data (fst (applyBounds ?b ?ig (snd c)))) (data (fst ?m)) d
                    (width (fst ?m)) (height (fst ?m))) = 0)"
      using c0 a0 assms(5) by simp
  qed simp
  have nan: "difference v = NaN \<and> \<not> match v" if v: "v \<in> set (results ?st)" for v
  proof -
    from ok [OF v] full zero v have "difference v = NaN"
      by (simp add: entry_ok_def js_div_def)
    moreover from ok [OF v] have "match v = js_le (difference v) (tolerance opts)"
      by (simp add: entry_ok_def)
    ultimately show ?thesis by simp
  qed
  from nan [OF best] have "difference (res out) = NaN \<and> \<not> match (res out)"
    unfolding f(9,10) .
  with nan show ?thesis unfolding f(4) by blast
qed

theorem fully_masked_never_matches_witness:
  "\<exists>out. getVisualDifferences shot_helper
            \<lparr>tolerance = Fin 100, bounds = no_bounds,
              ignore = [\<lparr>box_left = 0, box_top = 0, box_width = 2, box_height = 1\<rparr>]\<rparr>
            plain_differ (row [0, 0])
            [(''/base/shot.png'', row [0, 0]), (''/base/shot~1.png'', row [7, 9])] = Inr out \<and>
         decoded (row [0, 0]) \<and>
         (\<forall>c\<in>set [(''/base/shot.png'', row [0, 0]), (''/base/shot~1.png'', row [7, 9])]. decoded (snd c)) \<and>
         relevantPixels (res out) = 0 \<and>
         (\<forall>e d w h. fst (plain_differ e e d w h) = 0) \<and>
         (\<forall>v\<in>set (variations (res out)). difference v = NaN \<and> \<not> match v) \<and>
         difference (res out) = NaN \<and> \<not> match (res out)"
proof -
  let ?opts = "\<lparr>tolerance = Fin 100, bounds = no_bounds,
              ignore = [\<lparr>box_left = 0, box_top = 0, box_width = 2, box_height = 1\<rparr>]\<rparr>"
  let ?cands = "[(''/base/shot.png'', row [0, 0]), (''/base/shot~1.png'', row [7, 9])]"
  let ?out = "\<lparr>res =
        \<lparr>match = False, difference = NaN, diffImage = ''Diff_shot.png'',
           diffPixels = 0, totalPixels = 2, relevantPixels = 0, variation = [],
           variations =
             [\<lparr>match = False, difference = NaN,
                 diffImage = ''Diff_shot.png'', diffPixels = 0,
                 totalPixels = 2, relevantPixels = 0, variation = []\<rparr>,
              \<lparr>match = False, difference = NaN,
                 diffImage = ''Diff_shot.1.png'', diffPixels = 0,
                 totalPixels = 2, relevantPixels = 0, variation = ''1''\<rparr>]\<rparr>,
        diffWritten = Some [0, 0, 0, 0, 0, 0, 0, 0]\<rparr>"
  have e: "getVisualDifferences shot_helper ?opts plain_differ (row [0, 0]) ?cands = Inr ?out"
    by code_simp
  have d: "decoded (row [0, 0])" by (simp add: decoded_def row_def grey_def)
  have ds: "\<forall>c\<in>set ?cands. decoded (snd c)" by (simp add: decoded_def row_def grey_def)
  have r: "relevantPixels (res ?out) = 0" by simp
  have p: "\<forall>e d w h. fst (plain_differ e e d w h) = 0"
    by (simp add: plain_differ_def count_diff_same)
  from fully_masked_never_matches [OF e d ds r p] e d ds r p show ?thesis
    by (intro exI [of _ ?out]) (simp only:, simp)
qed

end
